theory Spec2Isabelle
  imports Main "HOL-Library.Sublist"
begin

section \<open>The slide-deck navigation controller of presentation/script.js\<close>

text \<open>
  The script is one closure over the page: the array \<open>slides\<close>, the two buttons, the
  breadcrumb container and the variable \<open>current\<close>. The model passes that closure around
  as a record. Numbers are JavaScript numbers holding integers, modelled as \<open>int\<close>
  (array positions as \<open>nat\<close>); \<open>NaN\<close> and fractional arguments are outside the model.
  Every write to the page is also appended to a trace, so that "nothing was rendered"
  can be told apart from "the same thing was rendered again".
\<close>

subsection \<open>Strings\<close>

text \<open>
  Text that may leave ASCII (titles, labels) is a list of UTF-16 code units, as a
  JavaScript string is. CSS keywords and class names are plain ASCII strings.
\<close>

type_synonym jsstring = "nat list"

definition ascii :: "string \<Rightarrow> jsstring" where
  "ascii cs = map of_char cs"

text \<open>\<open>String(n)\<close> for a non-negative integer below \<open>10^21\<close>: its decimal digits.\<close>

fun decimal :: "nat \<Rightarrow> jsstring" where
  "decimal n = (if n < 10 then [48 + n] else decimal (n div 10) @ [48 + n mod 10])"

declare decimal.simps [simp del]

text \<open>\<open>a || b\<close> on an optional string: \<open>undefined\<close> and the empty string are falsy.\<close>

definition js_or :: "jsstring option \<Rightarrow> jsstring \<Rightarrow> jsstring" where
  "js_or a b = (case a of None \<Rightarrow> b | Some t \<Rightarrow> if t = [] then b else t)"

subsection \<open>The page and the closure\<close>

record slide =
  display :: string
  title :: "jsstring option"

text \<open>
  A breadcrumb marker: the \<open>div\<close> with its class name, the class name of its dot, the
  text of its label, and the index its click listener hands to \<open>goTo\<close>.
\<close>

record crumb =
  className :: string
  dot :: string
  label :: jsstring
  click :: nat

datatype dom_write =
    SetDisplay nat string
  | ClearCrumbs
  | AppendCrumb crumb
  | SetPrevDisabled bool
  | SetNextDisabled bool

text \<open>The document as the script finds it: lines 2 to 5 of the source.\<close>

record dom =
  slides :: "slide list"
  prevBtn_disabled :: bool
  nextBtn_disabled :: bool
  breadcrumbs :: "crumb list"

record state = dom +
  current :: int
  writes :: "dom_write list"

datatype error = TypeError

definition visible :: "slide \<Rightarrow> bool" where
  "visible sl = (display sl \<noteq> ''none'')"

definition is_active :: "crumb \<Rightarrow> bool" where
  "is_active c = (className c = ''crumb active'')"

subsection \<open>updateBreadcrumbs (lines 8 to 22)\<close>

text \<open>
  The fallback label is the template literal of line 16: the five Cyrillic letters
  U+0421 U+043B U+0430 U+0439 U+0434, a space, and \<open>index + 1\<close> in decimal.
\<close>

definition fallback_label :: "nat \<Rightarrow> jsstring" where
  "fallback_label index = [1057, 1083, 1072, 1081, 1076, 32] @ decimal (index + 1)"

definition new_crumb :: "int \<Rightarrow> slide \<Rightarrow> nat \<Rightarrow> crumb" where
  "new_crumb cur sl index =
     \<lparr> className = ''crumb'' @ (if int index = cur then '' active'' else ''''),
       dot = ''dot'',
       label = js_or (title sl) (fallback_label index),
       click = index \<rparr>"

definition appendChild :: "crumb \<Rightarrow> state \<Rightarrow> state" where
  "appendChild c s =
     s\<lparr> breadcrumbs := breadcrumbs s @ [c], writes := writes s @ [AppendCrumb c] \<rparr>"

fun forEach_crumb :: "nat \<Rightarrow> slide list \<Rightarrow> state \<Rightarrow> state" where
  "forEach_crumb index [] s = s"
| "forEach_crumb index (sl # rest) s =
     forEach_crumb (Suc index) rest (appendChild (new_crumb (current s) sl index) s)"

definition updateBreadcrumbs :: "state \<Rightarrow> state" where
  "updateBreadcrumbs s =
     forEach_crumb 0 (slides s)
       (s\<lparr> breadcrumbs := [], writes := writes s @ [ClearCrumbs] \<rparr>)"

subsection \<open>updateNav (lines 24 to 27)\<close>

definition updateNav :: "state \<Rightarrow> state" where
  "updateNav s =
     s\<lparr> prevBtn_disabled := (current s = 0),
        nextBtn_disabled := (current s = int (length (slides s)) - 1),
        writes := writes s @
          [SetPrevDisabled (current s = 0),
           SetNextDisabled (current s = int (length (slides s)) - 1)] \<rparr>"

subsection \<open>goTo, next and prev (lines 29 to 40)\<close>

text \<open>
  \<open>slides[i].style.display = v\<close>: an index outside the array reads \<open>undefined\<close>, and
  taking \<open>.style\<close> of it throws a TypeError. An exception ends \<open>goTo\<close>; the model
  returns the error alone, without the half-updated closure.
\<close>

definition set_display :: "int \<Rightarrow> string \<Rightarrow> state \<Rightarrow> error + state" where
  "set_display i v s =
     (if 0 \<le> i \<and> i < int (length (slides s))
      then Inr (s\<lparr> slides := (slides s)[nat i := (slides s ! nat i)\<lparr> display := v \<rparr>],
                   writes := writes s @ [SetDisplay (nat i) v] \<rparr>)
      else Inl TypeError)"

definition clamp :: "int \<Rightarrow> nat \<Rightarrow> int" where
  "clamp index n = max 0 (min index (int n - 1))"

definition goTo :: "int \<Rightarrow> state \<Rightarrow> error + state" where
  "goTo index s =
     (let nextIndex = clamp index (length (slides s)) in
      if nextIndex = current s then Inr s
      else case set_display (current s) ''none'' s of
             Inl e \<Rightarrow> Inl e
           | Inr s1 \<Rightarrow>
               (case set_display nextIndex '''' (s1\<lparr> current := nextIndex \<rparr>) of
                  Inl e \<Rightarrow> Inl e
                | Inr s2 \<Rightarrow> Inr (updateNav (updateBreadcrumbs s2))))"

definition next' :: "state \<Rightarrow> error + state" where
  "next' s = goTo (current s + 1) s"

definition prev :: "state \<Rightarrow> error + state" where
  "prev s = goTo (current s - 1) s"

text \<open>The click listener of the marker at position \<open>k\<close> of the breadcrumb container.\<close>

definition crumb_click :: "nat \<Rightarrow> state \<Rightarrow> error + state" where
  "crumb_click k s =
     (if k < length (breadcrumbs s) then goTo (int (click (breadcrumbs s ! k))) s
      else Inr s)"

text \<open>
  The listeners of lines 46 to 51. The two buttons call \<open>prev\<close> and \<open>next\<close>. The key
  listener tests the key twice, in sequence; an exception in the first call would end
  the handler.
\<close>

definition keydown :: "string \<Rightarrow> state \<Rightarrow> error + state" where
  "keydown key s =
     (case (if key = ''ArrowRight'' then next' s else Inr s) of
        Inl e \<Rightarrow> Inl e
      | Inr s1 \<Rightarrow> (if key = ''ArrowLeft'' then prev s1 else Inr s1))"

subsection \<open>Initialization (lines 2 to 6 and 42 to 54)\<close>

text \<open>
  The page is taken to hold the two buttons and the breadcrumb container, as the
  script assumes; their state before the script runs is part of the input, and so is
  the inline display of every slide. The loop of lines 42 to 44 visits the positions of
  the array itself, so \<open>hide\<close> is only ever applied inside it.
\<close>

definition hide :: "nat \<Rightarrow> state \<Rightarrow> state" where
  "hide idx s =
     s\<lparr> slides := (slides s)[idx := (slides s ! idx)\<lparr> display := ''none'' \<rparr>],
        writes := writes s @ [SetDisplay idx ''none''] \<rparr>"

fun forEach_hide :: "nat \<Rightarrow> slide list \<Rightarrow> state \<Rightarrow> state" where
  "forEach_hide idx [] s = s"
| "forEach_hide idx (sl # rest) s =
     forEach_hide (Suc idx) rest (if idx \<noteq> 0 then hide idx s else s)"

definition load :: "dom \<Rightarrow> state" where
  "load d =
     \<lparr> slides = slides d, prevBtn_disabled = prevBtn_disabled d,
       nextBtn_disabled = nextBtn_disabled d, breadcrumbs = breadcrumbs d,
       current = 0, writes = [] \<rparr>"

definition init :: "dom \<Rightarrow> state" where
  "init d = updateNav (updateBreadcrumbs (forEach_hide 0 (slides d) (load d)))"

subsection \<open>The states the controller can be in\<close>

text \<open>
  The state after load, and every state that a call of \<open>goTo\<close>, \<open>next\<close> or \<open>prev\<close>, a
  click on a marker or a key press returns normally from such a state.
\<close>

inductive reachable :: "dom \<Rightarrow> state \<Rightarrow> bool" for d :: dom where
  at_load: "reachable d (init d)"
| by_goTo: "reachable d s \<Longrightarrow> goTo i s = Inr s' \<Longrightarrow> reachable d s'"
| by_next: "reachable d s \<Longrightarrow> next' s = Inr s' \<Longrightarrow> reachable d s'"
| by_prev: "reachable d s \<Longrightarrow> prev s = Inr s' \<Longrightarrow> reachable d s'"
| by_click: "reachable d s \<Longrightarrow> crumb_click k s = Inr s' \<Longrightarrow> reachable d s'"
| by_key: "reachable d s \<Longrightarrow> keydown key s = Inr s' \<Longrightarrow> reachable d s'"

text \<open>What a full render of the breadcrumb container produces.\<close>

definition crumbs_of :: "slide list \<Rightarrow> int \<Rightarrow> crumb list" where
  "crumbs_of xs cur = map (\<lambda>(k, sl). new_crumb cur sl k) (enumerate 0 xs)"

text \<open>The positions of the visible slides, and of the markers flagged active.\<close>

definition visible_indices :: "state \<Rightarrow> nat list" where
  "visible_indices s = filter (\<lambda>k. visible (slides s ! k)) [0..<length (slides s)]"

definition active_indices :: "state \<Rightarrow> nat list" where
  "active_indices s = filter (\<lambda>k. is_active (breadcrumbs s ! k)) [0..<length (breadcrumbs s)]"

text \<open>
  The slides whose visibility a step from \<open>s\<close> to \<open>s'\<close> turns off, and those it turns on.
\<close>

definition flipped_off :: "state \<Rightarrow> state \<Rightarrow> nat list" where
  "flipped_off s s' =
     filter (\<lambda>k. visible (slides s ! k) \<and> \<not> visible (slides s' ! k)) [0..<length (slides s)]"

definition flipped_on :: "state \<Rightarrow> state \<Rightarrow> nat list" where
  "flipped_on s s' =
     filter (\<lambda>k. \<not> visible (slides s ! k) \<and> visible (slides s' ! k)) [0..<length (slides s)]"

subsection \<open>The effect of an index-changing goTo, written out\<close>

text \<open>
  Lines 32 and 34 of the source on the slide array, and lines 32 to 36 on the whole
  closure. The lemma \<open>goTo_move\<close> below shows that \<open>goTo\<close> computes exactly this
  whenever it passes the guard of line 31 with \<open>current\<close> inside the array.
\<close>

definition swap_display :: "nat \<Rightarrow> nat \<Rightarrow> slide list \<Rightarrow> slide list" where
  "swap_display old new xs =
     (let ys = xs[old := (xs ! old)\<lparr> display := ''none'' \<rparr>]
      in ys[new := (ys ! new)\<lparr> display := '''' \<rparr>])"

definition moved :: "int \<Rightarrow> state \<Rightarrow> state" where
  "moved c s =
     updateNav (updateBreadcrumbs
       (s\<lparr> current := c,
           slides := swap_display (nat (current s)) (nat c) (slides s),
           writes := writes s @
             [SetDisplay (nat (current s)) ''none'', SetDisplay (nat c) ''''] \<rparr>))"

text \<open>
  What never changes after load: the number of slides, their titles, and that
  \<open>current\<close> is a fixed point of the clamp (inside the array, or 0 for an empty deck).
\<close>

definition shape_ok :: "dom \<Rightarrow> state \<Rightarrow> bool" where
  "shape_ok d s \<longleftrightarrow>
     length (slides s) = length (slides d) \<and>
     map title (slides s) = map title (slides d) \<and>
     clamp (current s) (length (slides s)) = current s"

subsection \<open>Example pages and states\<close>

text \<open>
  A two-slide page whose first slide carries an inline \<open>display: none\<close>; a three-slide
  page with mixed titles and stale button flags; a page of five untitled slides; a
  page without slides; and two two-slide controller states, at the first and at the
  last slide.
\<close>

definition deck_first_hidden :: dom where
  "deck_first_hidden =
     \<lparr> slides = [\<lparr> display = ''none'', title = None \<rparr>,
                 \<lparr> display = '''', title = Some [73, 110, 116, 114, 111] \<rparr>],
       prevBtn_disabled = False, nextBtn_disabled = False, breadcrumbs = [] \<rparr>"

definition deck3 :: dom where
  "deck3 =
     \<lparr> slides = [\<lparr> display = '''', title = Some [73, 110, 116, 114, 111] \<rparr>,
                 \<lparr> display = ''block'', title = None \<rparr>,
                 \<lparr> display = '''', title = Some [] \<rparr>],
       prevBtn_disabled = False, nextBtn_disabled = True, breadcrumbs = [] \<rparr>"

definition deck5 :: dom where
  "deck5 =
     \<lparr> slides = replicate 5 \<lparr> display = '''', title = None \<rparr>,
       prevBtn_disabled = False, nextBtn_disabled = False, breadcrumbs = [] \<rparr>"

definition deck0 :: dom where
  "deck0 = \<lparr> slides = [], prevBtn_disabled = False, nextBtn_disabled = False,
             breadcrumbs = [] \<rparr>"

definition at_first :: state where
  "at_first =
     \<lparr> slides = [\<lparr> display = '''', title = None \<rparr>, \<lparr> display = ''none'', title = None \<rparr>],
       prevBtn_disabled = True, nextBtn_disabled = False,
       breadcrumbs = [], current = 0, writes = [] \<rparr>"

definition at_last :: state where
  "at_last =
     \<lparr> slides = [\<lparr> display = ''none'', title = None \<rparr>, \<lparr> display = '''', title = None \<rparr>],
       prevBtn_disabled = False, nextBtn_disabled = True,
       breadcrumbs = [], current = 1, writes = [] \<rparr>"

text \<open>
  Running one call after another, and what a user sees of the result: the index, the
  visible slides, the active markers and the two button flags.
\<close>

definition then_do :: "error + state \<Rightarrow> (state \<Rightarrow> error + state) \<Rightarrow> error + state" where
  "then_do r f = (case r of Inl e \<Rightarrow> Inl e | Inr s \<Rightarrow> f s)"

definition shown ::
  "error + state \<Rightarrow> (int \<times> nat list \<times> nat list \<times> bool \<times> bool) option" where
  "shown r =
     (case r of
        Inl e \<Rightarrow> None
      | Inr s \<Rightarrow> Some (current s, visible_indices s, active_indices s,
                         prevBtn_disabled s, nextBtn_disabled s))"

section \<open>The scenarios of the specification, run on the model\<close>

text \<open>Five slides after load: previous disabled, next enabled, slide 0 shown.\<close>

lemma scenario_A: "shown (Inr (init deck5)) = Some (0, [0], [0], True, False)"
  by code_simp

text \<open>\<open>prev\<close> at index 0 changes nothing.\<close>

lemma scenario_B: "prev (init deck5) = Inr (init deck5)"
  by code_simp

text \<open>From index 2 of five, \<open>next\<close> shows slide 3 and activates marker 3.\<close>

lemma scenario_C:
  "shown (then_do (goTo 2 (init deck5)) next') = Some (3, [3], [3], False, False)"
  by code_simp

text \<open>A click on marker 4 from index 0 disables next and enables previous.\<close>

lemma scenario_D: "shown (crumb_click 4 (init deck5)) = Some (4, [4], [4], False, True)"
  by code_simp

text \<open>Three slides: two presses of the right arrow reach index 2, and more change nothing.\<close>

lemma scenario_E:
  "shown (then_do (keydown ''ArrowRight'' (init deck3)) (keydown ''ArrowRight''))
     = Some (2, [2], [2], False, True) \<and>
   then_do (then_do (keydown ''ArrowRight'' (init deck3)) (keydown ''ArrowRight''))
     (keydown ''ArrowRight'')
     = then_do (keydown ''ArrowRight'' (init deck3)) (keydown ''ArrowRight'')"
  by code_simp

section \<open>Properties of the rendering helpers\<close>

lemma fc_slides [simp]: "slides (forEach_crumb k xs s) = slides s"
  by (induction xs arbitrary: k s) (simp_all add: appendChild_def)

lemma fc_current [simp]: "current (forEach_crumb k xs s) = current s"
  by (induction xs arbitrary: k s) (simp_all add: appendChild_def)

lemma fc_prev [simp]: "prevBtn_disabled (forEach_crumb k xs s) = prevBtn_disabled s"
  by (induction xs arbitrary: k s) (simp_all add: appendChild_def)

lemma fc_next [simp]: "nextBtn_disabled (forEach_crumb k xs s) = nextBtn_disabled s"
  by (induction xs arbitrary: k s) (simp_all add: appendChild_def)

lemma fc_breadcrumbs:
  "breadcrumbs (forEach_crumb k xs s) =
     breadcrumbs s @ map (\<lambda>(j, sl). new_crumb (current s) sl j) (enumerate k xs)"
  by (induction xs arbitrary: k s) (simp_all add: appendChild_def)

lemma fc_writes:
  "writes (forEach_crumb k xs s) =
     writes s @ map AppendCrumb (map (\<lambda>(j, sl). new_crumb (current s) sl j) (enumerate k xs))"
  by (induction xs arbitrary: k s) (simp_all add: appendChild_def)

lemma ub_slides [simp]: "slides (updateBreadcrumbs s) = slides s"
  by (simp add: updateBreadcrumbs_def)

lemma ub_current [simp]: "current (updateBreadcrumbs s) = current s"
  by (simp add: updateBreadcrumbs_def)

lemma ub_prev [simp]: "prevBtn_disabled (updateBreadcrumbs s) = prevBtn_disabled s"
  by (simp add: updateBreadcrumbs_def)

lemma ub_next [simp]: "nextBtn_disabled (updateBreadcrumbs s) = nextBtn_disabled s"
  by (simp add: updateBreadcrumbs_def)

lemma ub_breadcrumbs [simp]:
  "breadcrumbs (updateBreadcrumbs s) = crumbs_of (slides s) (current s)"
  by (simp add: updateBreadcrumbs_def fc_breadcrumbs crumbs_of_def)

lemma ub_writes:
  "writes (updateBreadcrumbs s) =
     writes s @ ClearCrumbs # map AppendCrumb (crumbs_of (slides s) (current s))"
  by (simp add: updateBreadcrumbs_def fc_writes crumbs_of_def)

lemma un_slides [simp]: "slides (updateNav s) = slides s"
  by (simp add: updateNav_def)

lemma un_current [simp]: "current (updateNav s) = current s"
  by (simp add: updateNav_def)

lemma un_breadcrumbs [simp]: "breadcrumbs (updateNav s) = breadcrumbs s"
  by (simp add: updateNav_def)

lemma un_prev [simp]: "prevBtn_disabled (updateNav s) = (current s = 0)"
  by (simp add: updateNav_def)

lemma un_next [simp]:
  "nextBtn_disabled (updateNav s) = (current s = int (length (slides s)) - 1)"
  by (simp add: updateNav_def)

lemma un_writes:
  "writes (updateNav s) = writes s @
     [SetPrevDisabled (current s = 0),
      SetNextDisabled (current s = int (length (slides s)) - 1)]"
  by (simp add: updateNav_def)

lemma fh_length [simp]: "length (slides (forEach_hide k xs s)) = length (slides s)"
  by (induction xs arbitrary: k s) (simp_all add: hide_def)

lemma fh_current [simp]: "current (forEach_hide k xs s) = current s"
  by (induction xs arbitrary: k s) (simp_all add: hide_def)

lemma fh_nth:
  "k + length xs \<le> length (slides s) \<Longrightarrow> j < length (slides s) \<Longrightarrow>
   slides (forEach_hide k xs s) ! j =
     (if k \<le> j \<and> j < k + length xs \<and> j \<noteq> 0
      then (slides s ! j)\<lparr> display := ''none'' \<rparr> else slides s ! j)"
proof (induction xs arbitrary: k s)
  case Nil
  then show ?case by auto
next
  case (Cons a xs)
  have len: "Suc k + length xs \<le> length (slides (if k \<noteq> 0 then hide k s else s))"
    and j: "j < length (slides (if k \<noteq> 0 then hide k s else s))"
    using Cons.prems by (simp_all add: hide_def)
  show ?case
    using Cons.IH [OF len j] Cons.prems
    by (auto simp: hide_def nth_list_update)
qed

lemma hide_title: "map title (slides (hide k s)) = map title (slides s)"
  by (cases "k < length (slides s)") (simp_all add: hide_def map_update list_update_same_conv list_update_beyond)

lemma fh_title: "map title (slides (forEach_hide k xs s)) = map title (slides s)"
  by (induction xs arbitrary: k s) (simp_all add: hide_title)

subsection \<open>goTo in closed form\<close>

lemma clamp_range: "0 < n \<Longrightarrow> 0 \<le> clamp i n \<and> clamp i n < int n"
  by (auto simp: clamp_def)

lemma clamp_empty: "clamp i 0 = 0"
  by (simp add: clamp_def)

lemma goTo_same: "clamp i (length (slides s)) = current s \<Longrightarrow> goTo i s = Inr s"
  by (simp add: goTo_def)

lemma goTo_move:
  assumes "0 \<le> current s" "current s < int (length (slides s))"
    and "clamp i (length (slides s)) \<noteq> current s"
  shows "goTo i s = Inr (moved (clamp i (length (slides s))) s)"
proof -
  have n: "0 < length (slides s)" using assms by auto
  note r = clamp_range [OF n, of i]
  show ?thesis
    using assms r by (simp add: goTo_def Let_def set_display_def moved_def swap_display_def)
qed

lemma goTo_fault:
  assumes "\<not> (0 \<le> current s \<and> current s < int (length (slides s)))"
    and "clamp i (length (slides s)) \<noteq> current s"
  shows "goTo i s = Inl TypeError"
  using assms by (simp add: goTo_def Let_def set_display_def)

lemma swap_length [simp]: "length (swap_display a b xs) = length xs"
  by (simp add: swap_display_def Let_def)

lemma swap_display_nth:
  "k < length xs \<Longrightarrow>
   display (swap_display a b xs ! k) =
     (if k = b then '''' else if k = a then ''none'' else display (xs ! k))"
  by (simp add: swap_display_def Let_def nth_list_update)

lemma swap_title_nth:
  "k < length xs \<Longrightarrow> title (swap_display a b xs ! k) = title (xs ! k)"
  by (cases "k = b"; cases "k = a") (simp_all add: swap_display_def Let_def)

lemma swap_other:
  "k \<noteq> a \<Longrightarrow> k \<noteq> b \<Longrightarrow> swap_display a b xs ! k = xs ! k"
  by (simp add: swap_display_def Let_def)

lemma swap_title: "map title (swap_display a b xs) = map title xs"
  by (rule nth_equalityI) (simp_all add: swap_title_nth)

lemma moved_slides [simp]:
  "slides (moved c s) = swap_display (nat (current s)) (nat c) (slides s)"
  by (simp add: moved_def)

lemma moved_current [simp]: "current (moved c s) = c"
  by (simp add: moved_def)

lemma moved_breadcrumbs [simp]:
  "breadcrumbs (moved c s) = crumbs_of (slides (moved c s)) c"
  by (simp add: moved_def)

lemma moved_prev [simp]: "prevBtn_disabled (moved c s) = (c = 0)"
  by (simp add: moved_def)

lemma moved_next [simp]:
  "nextBtn_disabled (moved c s) = (c = int (length (slides s)) - 1)"
  by (simp add: moved_def)

lemma moved_writes:
  "writes (moved c s) =
     writes s @
     [SetDisplay (nat (current s)) ''none'', SetDisplay (nat c) ''''] @
     ClearCrumbs # map AppendCrumb (crumbs_of (slides (moved c s)) c) @
     [SetPrevDisabled (c = 0), SetNextDisabled (c = int (length (slides s)) - 1)]"
  by (simp add: moved_def un_writes ub_writes)

lemma crumbs_of_length [simp]: "length (crumbs_of xs c) = length xs"
  by (simp add: crumbs_of_def)

lemma crumbs_of_nth:
  "k < length xs \<Longrightarrow> crumbs_of xs c ! k = new_crumb c (xs ! k) k"
  by (simp add: crumbs_of_def nth_enumerate_eq)

lemma crumbs_of_titles:
  "map title xs = map title ys \<Longrightarrow> crumbs_of xs c = crumbs_of ys c"
proof (rule nth_equalityI)
  assume t: "map title xs = map title ys"
  then have len: "length xs = length ys" by (rule map_eq_imp_length_eq)
  then show "length (crumbs_of xs c) = length (crumbs_of ys c)" by simp
  fix k assume "k < length (crumbs_of xs c)"
  then have k: "k < length xs" by simp
  then have "title (xs ! k) = title (ys ! k)"
    using t len by (metis nth_map)
  then show "crumbs_of xs c ! k = crumbs_of ys c ! k"
    using k len by (simp add: crumbs_of_nth new_crumb_def)
qed

lemma clamp_idem: "clamp (clamp i n) n = clamp i n"
  by (auto simp: clamp_def)

lemma clamp_fixed:
  "clamp c n = c \<longleftrightarrow> (0 \<le> c \<and> c < int n) \<or> (n = 0 \<and> c = 0)"
  by (auto simp: clamp_def)

subsection \<open>Initialization in closed form\<close>

lemma init_current [simp]: "current (init d) = 0"
  by (simp add: init_def load_def)

lemma init_length [simp]: "length (slides (init d)) = length (slides d)"
  by (simp add: init_def load_def)

lemma init_title: "map title (slides (init d)) = map title (slides d)"
  by (simp add: init_def fh_title load_def)

lemma init_nth:
  "k < length (slides d) \<Longrightarrow>
   slides (init d) ! k =
     (if k \<noteq> 0 then (slides d ! k)\<lparr> display := ''none'' \<rparr> else slides d ! k)"
  by (simp add: init_def fh_nth load_def)

lemma init_breadcrumbs: "breadcrumbs (init d) = crumbs_of (slides (init d)) 0"
  by (simp add: init_def load_def)

lemma init_prev: "prevBtn_disabled (init d) = True"
  by (simp add: init_def load_def)

lemma init_next:
  "nextBtn_disabled (init d) = (0 = int (length (slides d)) - 1)"
  by (simp add: init_def load_def)

subsection \<open>Invariants of the reachable states\<close>

lemma reachable_goTo_induct [consumes 1, case_names load goTo]:
  assumes "reachable d s"
    and "P (init d)"
    and "\<And>s i s'. reachable d s \<Longrightarrow> P s \<Longrightarrow> goTo i s = Inr s' \<Longrightarrow> P s'"
  shows "P s"
  using assms(1)
proof (induction rule: reachable.induct)
  case at_load
  show ?case by (rule assms(2))
next
  case (by_goTo s i s')
  then show ?case by (blast intro: assms(3))
next
  case (by_next s s')
  then show ?case unfolding next'_def by (blast intro: assms(3))
next
  case (by_prev s s')
  then show ?case unfolding prev_def by (blast intro: assms(3))
next
  case (by_click s k s')
  then show ?case
    unfolding crumb_click_def by (auto split: if_splits intro: assms(3))
next
  case (by_key s key s')
  then show ?case
    unfolding keydown_def next'_def prev_def
    by (auto split: if_splits sum.splits intro: assms(3))
qed

lemma goTo_cases:
  assumes "clamp (current s) (length (slides s)) = current s"
    and "goTo i s = Inr s'"
  obtains (same) "clamp i (length (slides s)) = current s" "s' = s"
  | (move) "clamp i (length (slides s)) \<noteq> current s"
      "0 \<le> current s" "current s < int (length (slides s))"
      "s' = moved (clamp i (length (slides s))) s"
proof (cases "clamp i (length (slides s)) = current s")
  case True
  with assms(2) have "s' = s" by (simp add: goTo_same)
  with True show ?thesis by (rule same)
next
  case False
  have "length (slides s) \<noteq> 0"
    using False assms(1) by (auto simp: clamp_fixed clamp_empty)
  then have r: "0 \<le> current s" "current s < int (length (slides s))"
    using assms(1) by (auto simp: clamp_fixed)
  with False assms(2) have "s' = moved (clamp i (length (slides s))) s"
    by (simp add: goTo_move)
  with False r show ?thesis by (rule move)
qed

lemma reachable_shape: "reachable d s \<Longrightarrow> shape_ok d s"
proof (induction rule: reachable_goTo_induct)
  case load
  show ?case by (simp add: shape_ok_def init_title clamp_def)
next
  case (goTo s i s')
  from goTo.IH have c: "clamp (current s) (length (slides s)) = current s"
    unfolding shape_ok_def by blast
  from c goTo.hyps(2) show ?case
  proof (cases rule: goTo_cases)
    case same
    with goTo.IH show ?thesis by simp
  next
    case move
    with goTo.IH show ?thesis by (auto simp: shape_ok_def swap_title clamp_idem)
  qed
qed

lemma filter_upt_single:
  assumes "c < n" and "\<And>k. k < n \<Longrightarrow> P k \<longleftrightarrow> k = c"
  shows "filter P [0..<n] = [c]"
  using assms
proof (induction n)
  case 0
  then show ?case by simp
next
  case (Suc n)
  show ?case
  proof (cases "c = n")
    case True
    have "filter P [0..<n] = []"
      using Suc.prems(2) True by (auto simp: filter_empty_conv)
    moreover have "P n" using Suc.prems(2) [of n] True by simp
    ultimately show ?thesis using True by simp
  next
    case False
    with Suc.prems(1) have "c < n" by simp
    moreover have "\<And>k. k < n \<Longrightarrow> P k \<longleftrightarrow> k = c" using Suc.prems(2) by simp
    ultimately have "filter P [0..<n] = [c]" by (rule Suc.IH)
    moreover have "\<not> P n" using Suc.prems(2) [of n] False by simp
    ultimately show ?thesis by simp
  qed
qed

lemma filter_upt_none:
  assumes "\<And>k. k < n \<Longrightarrow> \<not> P k"
  shows "filter P [0..<n] = []"
  using assms by (auto simp: filter_empty_conv)

lemma reachable_range:
  assumes "reachable d s" "slides d \<noteq> []"
  shows "0 \<le> current s" "current s < int (length (slides s))"
    "length (slides s) = length (slides d)"
  using reachable_shape [OF assms(1)] assms(2)
  by (auto simp: shape_ok_def clamp_fixed)

lemma reachable_others_hidden:
  "reachable d s \<Longrightarrow>
   \<forall>k<length (slides s). int k \<noteq> current s \<longrightarrow> display (slides s ! k) = ''none''"
proof (induction rule: reachable_goTo_induct)
  case load
  show ?case by (simp add: init_nth)
next
  case (goTo s i s')
  have c: "clamp (current s) (length (slides s)) = current s"
    using reachable_shape [OF goTo.hyps(1)] unfolding shape_ok_def by blast
  from c goTo.hyps(2) show ?case
  proof (cases rule: goTo_cases)
    case same
    with goTo.IH show ?thesis by simp
  next
    case move
    have "0 \<le> clamp i (length (slides s))" by (simp add: clamp_def)
    with move goTo.IH show ?thesis
      by (auto simp: swap_display_nth)
  qed
qed

lemma reachable_current_display:
  "reachable d s \<Longrightarrow>
   display (slides s ! nat (current s)) = '''' \<or>
   (current s = 0 \<and> display (slides s ! 0) = display (slides d ! 0))"
proof (induction rule: reachable_goTo_induct)
  case load
  show ?case
  proof (cases "slides d = []")
    case True
    then have "slides (init d) = []"
      using init_length [of d] by (simp del: init_length)
    with True show ?thesis by simp
  next
    case False
    then show ?thesis by (simp add: init_nth)
  qed
next
  case (goTo s i s')
  have c: "clamp (current s) (length (slides s)) = current s"
    using reachable_shape [OF goTo.hyps(1)] unfolding shape_ok_def by blast
  from c goTo.hyps(2) show ?case
  proof (cases rule: goTo_cases)
    case same
    with goTo.IH show ?thesis by simp
  next
    case move
    have "0 \<le> clamp i (length (slides s))"
      "clamp i (length (slides s)) < int (length (slides s))"
      using move(2,3) by (auto simp: clamp_def)
    with move show ?thesis by (simp add: swap_display_nth)
  qed
qed

lemma reachable_breadcrumbs:
  "reachable d s \<Longrightarrow> breadcrumbs s = crumbs_of (slides s) (current s)"
proof (induction rule: reachable_goTo_induct)
  case load
  show ?case by (simp add: init_breadcrumbs)
next
  case (goTo s i s')
  have c: "clamp (current s) (length (slides s)) = current s"
    using reachable_shape [OF goTo.hyps(1)] unfolding shape_ok_def by blast
  from c goTo.hyps(2) show ?case
  proof (cases rule: goTo_cases)
    case same
    with goTo.IH show ?thesis by simp
  next
    case move
    then show ?thesis by simp
  qed
qed

lemma reachable_flags:
  "reachable d s \<Longrightarrow>
   prevBtn_disabled s = (current s = 0) \<and>
   nextBtn_disabled s = (current s = int (length (slides s)) - 1) \<and>
   suffix [SetPrevDisabled (current s = 0),
           SetNextDisabled (current s = int (length (slides s)) - 1)] (writes s)"
proof (induction rule: reachable_goTo_induct)
  case load
  show ?case
    by (simp add: init_prev init_next) (simp add: init_def un_writes suffix_def load_def)
next
  case (goTo s i s')
  have c: "clamp (current s) (length (slides s)) = current s"
    using reachable_shape [OF goTo.hyps(1)] unfolding shape_ok_def by blast
  from c goTo.hyps(2) show ?case
  proof (cases rule: goTo_cases)
    case same
    with goTo.IH show ?thesis by simp
  next
    case move
    then show ?thesis by (simp add: moved_writes suffix_def)
  qed
qed

lemma reachable_clamp:
  "reachable d s \<Longrightarrow> clamp (current s) (length (slides s)) = current s"
  using reachable_shape [of d s] unfolding shape_ok_def by blast

lemma visible_none [simp]: "visible sl \<longleftrightarrow> display sl \<noteq> ''none''"
  by (simp add: visible_def)

lemma reachable_length: "reachable d s \<Longrightarrow> length (slides s) = length (slides d)"
  using reachable_shape [of d s] unfolding shape_ok_def by blast

lemma reachable_titles: "reachable d s \<Longrightarrow> map title (slides s) = map title (slides d)"
  using reachable_shape [of d s] unfolding shape_ok_def by blast

lemma goTo_writes_grow:
  assumes "reachable d s" and "goTo i s = Inr s'" and "current s' \<noteq> current s"
  shows "\<exists>ws. writes s' = writes s @ ws @
           [SetPrevDisabled (current s' = 0),
            SetNextDisabled (current s' = int (length (slides s)) - 1)]"
proof -
  have c: "clamp (current s) (length (slides s)) = current s"
    using assms(1) by (rule reachable_clamp)
  from c assms(2) show ?thesis
  proof (cases rule: goTo_cases)
    case same
    with assms(3) show ?thesis by simp
  next
    case move
    then show ?thesis by (simp add: moved_writes)
  qed
qed

lemma active_crumb [simp]: "is_active (new_crumb c sl k) \<longleftrightarrow> int k = c"
  by (simp add: is_active_def new_crumb_def)

text \<open>
  A reachable state is the load state itself or shows the slide at \<open>current\<close>; the
  container always holds a render from the page's slides; the trace always ends with
  the last full render; and an index-changing \<open>goTo\<close> renders again.
\<close>

lemma reachable_load_or_shown:
  "reachable d s \<Longrightarrow> s = init d \<or> display (slides s ! nat (current s)) = ''''"
proof (induction rule: reachable_goTo_induct)
  case load
  show ?case by simp
next
  case (goTo s i s')
  have c: "clamp (current s) (length (slides s)) = current s"
    using goTo.hyps(1) by (rule reachable_clamp)
  from c goTo.hyps(2) show ?case
  proof (cases rule: goTo_cases)
    case same
    with goTo.IH show ?thesis by simp
  next
    case move
    have "0 \<le> clamp i (length (slides s))"
      "clamp i (length (slides s)) < int (length (slides s))"
      using move(2,3) by (auto simp: clamp_def)
    with move show ?thesis by (simp add: swap_display_nth)
  qed
qed

lemma reachable_breadcrumbs_dom:
  assumes "reachable d s"
  shows "breadcrumbs s = crumbs_of (slides d) (current s)"
proof -
  have "crumbs_of (slides s) (current s) = crumbs_of (slides d) (current s)"
    using reachable_titles [OF assms] by (rule crumbs_of_titles)
  with reachable_breadcrumbs [OF assms] show ?thesis by simp
qed

lemma reachable_render_trace:
  "reachable d s \<Longrightarrow>
   suffix (ClearCrumbs # map AppendCrumb (breadcrumbs s) @
           [SetPrevDisabled (current s = 0),
            SetNextDisabled (current s = int (length (slides s)) - 1)]) (writes s)"
proof (induction rule: reachable_goTo_induct)
  case load
  show ?case
    by (simp add: init_def un_writes ub_writes suffix_def load_def)
next
  case (goTo s i s')
  have c: "clamp (current s) (length (slides s)) = current s"
    using goTo.hyps(1) by (rule reachable_clamp)
  from c goTo.hyps(2) show ?case
  proof (cases rule: goTo_cases)
    case same
    with goTo.IH show ?thesis by simp
  next
    case move
    then show ?thesis by (simp add: moved_writes suffix_def)
  qed
qed

lemma goTo_rerenders:
  assumes "reachable d s" and "clamp i (length (slides d)) \<noteq> current s"
  shows "\<exists>s'. goTo i s = Inr s' \<and> current s' = clamp i (length (slides d)) \<and>
           breadcrumbs s' = crumbs_of (slides d) (current s') \<and>
           writes s' = writes s @
             [SetDisplay (nat (current s)) ''none'', SetDisplay (nat (current s')) ''''] @
             ClearCrumbs # map AppendCrumb (breadcrumbs s') @
             [SetPrevDisabled (current s' = 0),
              SetNextDisabled (current s' = int (length (slides d)) - 1)]"
proof -
  have len: "length (slides s) = length (slides d)"
    using assms(1) by (rule reachable_length)
  have fx: "clamp (current s) (length (slides s)) = current s"
    using assms(1) by (rule reachable_clamp)
  have ne: "clamp i (length (slides s)) \<noteq> current s" using assms(2) len by simp
  have "length (slides s) \<noteq> 0"
    using ne fx by (auto simp: clamp_fixed clamp_empty)
  then have old: "0 \<le> current s" "current s < int (length (slides s))"
    using fx by (auto simp: clamp_fixed)
  define s' where "s' = moved (clamp i (length (slides s))) s"
  have g: "goTo i s = Inr s'"
    unfolding s'_def using old ne by (rule goTo_move)
  with assms(1) have r': "reachable d s'" by (rule by_goTo)
  have cur: "current s' = clamp i (length (slides d))" by (simp add: s'_def len)
  have w: "writes s' = writes s @
             [SetDisplay (nat (current s)) ''none'', SetDisplay (nat (current s')) ''''] @
             ClearCrumbs # map AppendCrumb (breadcrumbs s') @
             [SetPrevDisabled (current s' = 0),
              SetNextDisabled (current s' = int (length (slides d)) - 1)]"
    by (simp add: s'_def moved_writes len)
  from g cur reachable_breadcrumbs_dom [OF r'] w show ?thesis by blast
qed

subsection \<open>The decimal rendering\<close>

text \<open>
  \<open>decimal\<close> yields ASCII digits only, and reading them back gives the number: it is
  the decimal numeral of its argument.
\<close>

lemma decimal_digits: "\<forall>c \<in> set (decimal n). 48 \<le> c \<and> c \<le> 57"
proof (induction n rule: decimal.induct)
  case (1 n)
  show ?case
  proof (cases "n < 10")
    case True
    then show ?thesis by (simp add: decimal.simps [of n])
  next
    case False
    have "n mod 10 < 10" by simp
    then have "48 + n mod 10 \<le> 57" by linarith
    with False "1.IH" show ?thesis by (auto simp: decimal.simps [of n])
  qed
qed

lemma decimal_value: "foldl (\<lambda>a c. 10 * a + (c - 48)) 0 (decimal n) = n"
proof (induction n rule: decimal.induct)
  case (1 n)
  show ?case
  proof (cases "n < 10")
    case True
    then show ?thesis by (simp add: decimal.simps [of n])
  next
    case False
    with "1.IH" show ?thesis by (simp add: decimal.simps [of n])
  qed
qed

section \<open>The claims\<close>

text \<open>
  Claim C1. For a deck of \<open>N \<ge> 1\<close> slides, in every state the controller can reach and
  for every integer \<open>i\<close>, negative or beyond the deck included, \<open>goTo i\<close> returns
  normally (no TypeError) and leaves \<open>current = max 0 (min i (N - 1))\<close>.
\<close>

theorem goTo_clamps_index:
  assumes "reachable d s" and "slides d \<noteq> []"
  shows "\<exists>s'. goTo i s = Inr s' \<and>
              current s' = max 0 (min i (int (length (slides d)) - 1))"
proof (cases "clamp i (length (slides s)) = current s")
  case True
  then have "goTo i s = Inr s" by (rule goTo_same)
  moreover have "current s = max 0 (min i (int (length (slides d)) - 1))"
    using True reachable_range(3) [OF assms] by (simp add: clamp_def)
  ultimately show ?thesis by blast
next
  case False
  have "goTo i s = Inr (moved (clamp i (length (slides s))) s)"
    using reachable_range(1,2) [OF assms] False by (rule goTo_move)
  moreover have "clamp i (length (slides s)) = max 0 (min i (int (length (slides d)) - 1))"
    using reachable_range(3) [OF assms] by (simp add: clamp_def)
  ultimately show ?thesis by simp
qed

text \<open>On the three-slide page, \<open>goTo 7\<close> lands on 2 and \<open>goTo (-4)\<close> on 0.\<close>

theorem goTo_clamps_index_witness:
  "reachable deck3 (init deck3) \<and> slides deck3 \<noteq> [] \<and>
   (\<exists>s'. goTo 7 (init deck3) = Inr s' \<and> current s' = 2) \<and>
   (\<exists>s'. goTo (- 4) (init deck3) = Inr s' \<and> current s' = 0)"
proof -
  have r: "reachable deck3 (init deck3)" by (rule at_load)
  have n: "slides deck3 \<noteq> []" by (simp add: deck3_def)
  show ?thesis
    using r n goTo_clamps_index [OF r n, of 7] goTo_clamps_index [OF r n, of "- 4"]
    by (simp add: deck3_def)
qed

text \<open>
  Claim C2, with one state set apart. For a deck of \<open>N \<ge> 1\<close> slides, every reachable
  state has \<open>0 \<le> current < N\<close> and every slide other than the one at \<open>current\<close> hidden.
  Exactly one slide is visible, the one at \<open>current\<close>, in every reachable state but
  one: the state right after load of a page whose first slide carries an inline
  \<open>display: none\<close>. Initialization (lines 42 to 44) hides the slides after the first and
  never shows the first one itself, so that state shows no slide; the first call that
  changes the index shows its target (line 34), and from then on the claim holds, at
  index 0 as well.
\<close>

theorem one_visible_slide:
  assumes "reachable d s" and "slides d \<noteq> []"
  shows "0 \<le> current s \<and> current s < int (length (slides s)) \<and>
         length (slides s) = length (slides d) \<and>
         (\<forall>k<length (slides s). int k \<noteq> current s \<longrightarrow> \<not> visible (slides s ! k)) \<and>
         (visible_indices s = [nat (current s)] \<longleftrightarrow>
            visible (slides d ! 0) \<or> s \<noteq> init d) \<and>
         (current s \<noteq> 0 \<longrightarrow> visible_indices s = [nat (current s)])"
proof -
  note r = reachable_range [OF assms]
  have others: "\<forall>k<length (slides s). int k \<noteq> current s \<longrightarrow> \<not> visible (slides s ! k)"
    using reachable_others_hidden [OF assms(1)] by simp
  have one: "visible_indices s = [nat (current s)]"
    if v: "visible (slides s ! nat (current s))"
    unfolding visible_indices_def
  proof (rule filter_upt_single)
    show "nat (current s) < length (slides s)" using r by simp
  next
    fix k assume k: "k < length (slides s)"
    show "visible (slides s ! k) \<longleftrightarrow> k = nat (current s)"
      using v others k r by (cases "k = nat (current s)") auto
  qed
  have shown: "visible (slides s ! nat (current s))"
    if "visible (slides d ! 0) \<or> s \<noteq> init d"
    using that reachable_load_or_shown [OF assms(1)] assms(2)
    by (auto simp: init_nth)
  have none: "visible_indices s \<noteq> [nat (current s)]"
    if h: "\<not> visible (slides d ! 0)" and l: "s = init d"
  proof
    assume "visible_indices s = [nat (current s)]"
    then have "0 \<in> set (visible_indices (init d))" using l by simp
    then have "visible (slides (init d) ! 0)" by (simp add: visible_indices_def)
    with h assms(2) show False by (simp add: init_nth)
  qed
  have moved_on: "s \<noteq> init d" if "current s \<noteq> 0"
    using that by auto
  from r others one shown none moved_on show ?thesis by blast
qed

text \<open>
  The three-slide page right after load shows slide 0 alone. The page whose first
  slide is hidden inline shows slide 1 alone after \<open>goTo 1\<close>, and slide 0 alone after
  going back with \<open>goTo 0\<close>.
\<close>

theorem one_visible_slide_witness:
  "reachable deck3 (init deck3) \<and> slides deck3 \<noteq> [] \<and> visible (slides deck3 ! 0) \<and>
   visible_indices (init deck3) = [0] \<and>
   slides deck_first_hidden \<noteq> [] \<and> \<not> visible (slides deck_first_hidden ! 0) \<and>
   goTo 1 (init deck_first_hidden) = Inr (moved 1 (init deck_first_hidden)) \<and>
   reachable deck_first_hidden (moved 1 (init deck_first_hidden)) \<and>
   visible_indices (moved 1 (init deck_first_hidden)) = [1] \<and>
   goTo 0 (moved 1 (init deck_first_hidden)) = Inr (moved 0 (moved 1 (init deck_first_hidden))) \<and>
   reachable deck_first_hidden (moved 0 (moved 1 (init deck_first_hidden))) \<and>
   moved 0 (moved 1 (init deck_first_hidden)) \<noteq> init deck_first_hidden \<and>
   visible_indices (moved 0 (moved 1 (init deck_first_hidden))) = [0]"
proof -
  have r: "reachable deck3 (init deck3)" by (rule at_load)
  have n: "slides deck3 \<noteq> []" by (simp add: deck3_def)
  have v: "visible (slides deck3 ! 0)" by (simp add: deck3_def)
  have a: "visible_indices (init deck3) = [0]"
    using one_visible_slide [OF r n] v by simp
  have len: "length (slides deck_first_hidden) = 2" by (simp add: deck_first_hidden_def)
  have n': "slides deck_first_hidden \<noteq> []" by (simp add: deck_first_hidden_def)
  have h: "\<not> visible (slides deck_first_hidden ! 0)" by (simp add: deck_first_hidden_def)
  have g1: "goTo 1 (init deck_first_hidden) = Inr (moved 1 (init deck_first_hidden))"
    using goTo_move [of "init deck_first_hidden" 1] by (simp add: len clamp_def)
  with at_load have r1: "reachable deck_first_hidden (moved 1 (init deck_first_hidden))"
    by (rule by_goTo)
  have b: "visible_indices (moved 1 (init deck_first_hidden)) = [1]"
    using one_visible_slide [OF r1 n'] by simp
  have g2: "goTo 0 (moved 1 (init deck_first_hidden)) =
      Inr (moved 0 (moved 1 (init deck_first_hidden)))"
    using goTo_move [of "moved 1 (init deck_first_hidden)" 0] by (simp add: len clamp_def)
  with r1 have r2: "reachable deck_first_hidden (moved 0 (moved 1 (init deck_first_hidden)))"
    by (rule by_goTo)
  have x: "display (slides (moved 0 (moved 1 (init deck_first_hidden))) ! 0) = ''''"
    by (simp add: swap_display_nth len)
  have y: "display (slides (init deck_first_hidden) ! 0) = ''none''"
    by (simp add: init_nth deck_first_hidden_def)
  have d: "moved 0 (moved 1 (init deck_first_hidden)) \<noteq> init deck_first_hidden"
  proof
    assume e: "moved 0 (moved 1 (init deck_first_hidden)) = init deck_first_hidden"
    from x have "display (slides (init deck_first_hidden) ! 0) = ''''" unfolding e .
    with y show False by simp
  qed
  have c: "visible_indices (moved 0 (moved 1 (init deck_first_hidden))) = [0]"
    using one_visible_slide [OF r2 n'] d by simp
  from r n v a n' h g1 r1 b g2 r2 d c show ?thesis by blast
qed

text \<open>
  As stated, for every reachable state, C2 fails: on the page whose first slide is
  hidden inline, the state right after load shows no slide at all.
\<close>

theorem first_slide_hidden_at_load:
  "slides deck_first_hidden \<noteq> [] \<and>
   reachable deck_first_hidden (init deck_first_hidden) \<and>
   visible_indices (init deck_first_hidden) = []"
proof -
  have "visible_indices (init deck_first_hidden) = []"
    by (simp add: visible_indices_def init_def load_def deck_first_hidden_def hide_def
        upt_rec)
  moreover have "slides deck_first_hidden \<noteq> []" by (simp add: deck_first_hidden_def)
  ultimately show ?thesis using at_load by blast
qed

text \<open>
  Claim C3. In any state, a \<open>goTo\<close> whose clamped target equals \<open>current\<close> returns the
  state it was given: the index, every slide's display, the breadcrumb markers, both
  button flags (and the trace of writes) are the same. That covers \<open>next\<close> at the last
  index and \<open>prev\<close> at index 0.
\<close>

theorem noop_leaves_state:
  "(clamp i (length (slides s)) = current s \<longrightarrow> goTo i s = Inr s) \<and>
   (slides s \<noteq> [] \<and> current s = int (length (slides s)) - 1 \<longrightarrow> next' s = Inr s) \<and>
   (current s = 0 \<longrightarrow> prev s = Inr s)"
proof (intro conjI impI)
  assume "clamp i (length (slides s)) = current s"
  then show "goTo i s = Inr s" by (rule goTo_same)
next
  assume "slides s \<noteq> [] \<and> current s = int (length (slides s)) - 1"
  then have "clamp (current s + 1) (length (slides s)) = current s"
    by (auto simp: clamp_def)
  then show "next' s = Inr s" unfolding next'_def by (rule goTo_same)
next
  assume "current s = 0"
  then have "clamp (current s - 1) (length (slides s)) = current s"
    by (simp add: clamp_def)
  then show "prev s = Inr s" unfolding prev_def by (rule goTo_same)
qed

text \<open>\<open>goTo 5\<close> and \<open>next\<close> at the last of two slides, \<open>prev\<close> at the first.\<close>

theorem noop_leaves_state_witness:
  "clamp 5 (length (slides at_last)) = current at_last \<and> goTo 5 at_last = Inr at_last \<and>
   slides at_last \<noteq> [] \<and> current at_last = int (length (slides at_last)) - 1 \<and>
   next' at_last = Inr at_last \<and>
   current at_first = 0 \<and> prev at_first = Inr at_first"
  using noop_leaves_state [of 5 at_last] noop_leaves_state [of 0 at_first]
  by (simp add: at_last_def at_first_def clamp_def)

text \<open>
  Claim C4, with a proviso on the old slide. In a reachable state, a \<open>goTo\<close> whose clamped target differs from
  \<open>current\<close> returns normally, turns on exactly one slide, the one at the new
  \<open>current\<close>, leaves the slide at the old \<open>current\<close> hidden, and leaves every other
  slide as it was. It turns off exactly one slide, the one at the old \<open>current\<close>,
  whenever that slide was visible before the call, which is the case in every
  reachable state of a page whose first slide was not hidden inline at load.
\<close>

theorem goTo_flips_two:
  assumes "reachable d s" and "clamp i (length (slides s)) \<noteq> current s"
  shows "\<exists>s'. goTo i s = Inr s' \<and> current s' = clamp i (length (slides s)) \<and>
              length (slides s') = length (slides s) \<and>
              flipped_on s s' = [nat (current s')] \<and>
              (visible (slides d ! 0) \<or> visible (slides s ! nat (current s)) \<longrightarrow>
                 flipped_off s s' = [nat (current s)]) \<and>
              \<not> visible (slides s' ! nat (current s)) \<and>
              (\<forall>k<length (slides s). k \<noteq> nat (current s) \<longrightarrow> k \<noteq> nat (current s') \<longrightarrow>
                 slides s' ! k = slides s ! k)"
proof -
  define c where "c = clamp i (length (slides s))"
  define s' where "s' = moved c s"
  have fx: "clamp (current s) (length (slides s)) = current s"
    using assms(1) by (rule reachable_clamp)
  have ne: "length (slides s) \<noteq> 0"
    using assms(2) fx by (auto simp: clamp_fixed clamp_empty)
  have old: "0 \<le> current s" "current s < int (length (slides s))"
    using fx ne by (auto simp: clamp_fixed)
  have new: "0 \<le> c" "c < int (length (slides s))" "c \<noteq> current s"
    using ne assms(2) by (auto simp: c_def clamp_def)
  have g: "goTo i s = Inr s'"
    unfolding s'_def c_def using old assms(2) by (rule goTo_move)
  have disp: "display (slides s' ! k) =
      (if k = nat c then '''' else if k = nat (current s) then ''none''
       else display (slides s ! k))" if "k < length (slides s)" for k
    using that by (simp add: s'_def swap_display_nth)
  have hidden: "display (slides s ! k) = ''none''"
    if "k < length (slides s)" "k \<noteq> nat (current s)" for k
    using reachable_others_hidden [OF assms(1)] that old by auto
  have distinct: "nat c \<noteq> nat (current s)" using old new by simp
  have on: "flipped_on s s' = [nat c]"
    unfolding flipped_on_def
  proof (rule filter_upt_single)
    show "nat c < length (slides s)" using new by simp
  next
    fix k assume k: "k < length (slides s)"
    show "(\<not> visible (slides s ! k) \<and> visible (slides s' ! k)) \<longleftrightarrow> k = nat c"
      using disp [OF k] hidden [OF k] distinct by auto
  qed
  have off: "flipped_off s s' = [nat (current s)]"
    if v: "visible (slides d ! 0) \<or> visible (slides s ! nat (current s))"
    unfolding flipped_off_def
  proof (rule filter_upt_single)
    show "nat (current s) < length (slides s)" using old by simp
  next
    fix k assume k: "k < length (slides s)"
    have "visible (slides s ! nat (current s))"
      using v reachable_current_display [OF assms(1)] by auto
    then show "(visible (slides s ! k) \<and> \<not> visible (slides s' ! k)) \<longleftrightarrow> k = nat (current s)"
      using disp [OF k] hidden [OF k] distinct by auto
  qed
  have gone: "\<not> visible (slides s' ! nat (current s))"
    using disp [of "nat (current s)"] old distinct by simp
  have frame: "\<forall>k<length (slides s). k \<noteq> nat (current s) \<longrightarrow> k \<noteq> nat (current s') \<longrightarrow>
      slides s' ! k = slides s ! k"
    by (simp add: s'_def swap_other)
  have "current s' = c" "length (slides s') = length (slides s)"
    by (simp_all add: s'_def)
  with g on off gone frame show ?thesis
    unfolding c_def [symmetric] by auto
qed

text \<open>From slide 0 of the three-slide page, \<open>goTo 2\<close> turns slide 0 off and slide 2 on.\<close>

theorem goTo_flips_two_witness:
  "reachable deck3 (init deck3) \<and>
   clamp 2 (length (slides (init deck3))) \<noteq> current (init deck3) \<and>
   visible (slides deck3 ! 0) \<and>
   (\<exists>s'. goTo 2 (init deck3) = Inr s' \<and> current s' = 2 \<and>
         flipped_on (init deck3) s' = [2] \<and> flipped_off (init deck3) s' = [0])"
proof -
  have r: "reachable deck3 (init deck3)" by (rule at_load)
  have len: "length (slides deck3) = 3" by (simp add: deck3_def)
  have c: "clamp 2 (length (slides (init deck3))) = 2" by (simp add: len clamp_def)
  have ne: "clamp 2 (length (slides (init deck3))) \<noteq> current (init deck3)"
    by (simp add: len clamp_def)
  have v: "visible (slides deck3 ! 0)" by (simp add: deck3_def)
  from goTo_flips_two [OF r ne] r ne v c show ?thesis by auto
qed

text \<open>
  As stated, C4 fails on the page whose first slide is hidden inline: the first
  \<open>goTo 1\<close> after load changes the index and turns no slide off, since the slide at the
  old index was hidden already.
\<close>

theorem hidden_first_slide_never_flips_off:
  "reachable deck_first_hidden (init deck_first_hidden) \<and>
   clamp 1 (length (slides (init deck_first_hidden))) \<noteq> current (init deck_first_hidden) \<and>
   \<not> isl (goTo 1 (init deck_first_hidden)) \<and>
   flipped_off (init deck_first_hidden) (projr (goTo 1 (init deck_first_hidden))) = []"
proof -
  have r: "reachable deck_first_hidden (init deck_first_hidden)" by (rule at_load)
  have len: "length (slides deck_first_hidden) = 2"
    by (simp add: deck_first_hidden_def)
  have c: "clamp 1 (length (slides (init deck_first_hidden))) \<noteq> current (init deck_first_hidden)"
    by (simp add: len clamp_def)
  have g: "goTo 1 (init deck_first_hidden) = Inr (moved 1 (init deck_first_hidden))"
    using goTo_move [of "init deck_first_hidden" 1] by (simp add: len clamp_def)
  have h: "\<not> visible (slides (init deck_first_hidden) ! 0)"
    by (simp add: init_nth deck_first_hidden_def)
  have "flipped_off (init deck_first_hidden) (moved 1 (init deck_first_hidden)) = []"
    unfolding flipped_off_def
  proof (rule filter_upt_none)
    fix k assume "k < length (slides (init deck_first_hidden))"
    then have "k = 0 \<or> k = 1" using len by auto
    then show "\<not> (visible (slides (init deck_first_hidden) ! k) \<and>
                  \<not> visible (slides (moved 1 (init deck_first_hidden)) ! k))"
      using h by (auto simp: swap_display_nth len)
  qed
  with r c g show ?thesis by simp
qed

text \<open>
  Claim C5. In every reachable state (after initialization and after any call) the
  previous button is disabled exactly when \<open>current = 0\<close> and the next button exactly
  when \<open>current = N - 1\<close>. Both flags are written by \<open>updateNav\<close>: the last two writes
  of the trace are always the two flags for the present index, and every \<open>goTo\<close> that
  changes the index appends writes that end with them.
\<close>

theorem nav_flags:
  assumes "reachable d s"
  shows "(prevBtn_disabled s \<longleftrightarrow> current s = 0) \<and>
         (nextBtn_disabled s \<longleftrightarrow> current s = int (length (slides d)) - 1) \<and>
         suffix [SetPrevDisabled (current s = 0),
                 SetNextDisabled (current s = int (length (slides d)) - 1)] (writes s) \<and>
         (\<forall>i s'. goTo i s = Inr s' \<longrightarrow> current s' \<noteq> current s \<longrightarrow>
            (\<exists>ws. writes s' = writes s @ ws @
               [SetPrevDisabled (current s' = 0),
                SetNextDisabled (current s' = int (length (slides d)) - 1)]))"
  using reachable_flags [OF assms] goTo_writes_grow [OF assms]
  by (simp add: reachable_length [OF assms])

text \<open>
  The three-slide page loads with the flags the wrong way round; initialization sets
  them right, and after \<open>goTo 2\<close> they are swapped.
\<close>

theorem nav_flags_witness:
  "reachable deck3 (init deck3) \<and> \<not> prevBtn_disabled deck3 \<and> nextBtn_disabled deck3 \<and>
   prevBtn_disabled (init deck3) \<and> \<not> nextBtn_disabled (init deck3) \<and>
   reachable deck3 (moved 2 (init deck3)) \<and>
   \<not> prevBtn_disabled (moved 2 (init deck3)) \<and> nextBtn_disabled (moved 2 (init deck3))"
proof -
  have r: "reachable deck3 (init deck3)" by (rule at_load)
  have len: "length (slides deck3) = 3" by (simp add: deck3_def)
  have "goTo 2 (init deck3) = Inr (moved 2 (init deck3))"
    using goTo_move [of "init deck3" 2] by (simp add: len clamp_def)
  with r have r2: "reachable deck3 (moved 2 (init deck3))" by (rule by_goTo)
  show ?thesis
    using r r2 nav_flags [OF r] nav_flags [OF r2]
    by (simp add: len) (simp add: deck3_def)
qed

text \<open>
  Claim C6. In every reachable state the breadcrumb container holds what a full render
  from the slides and \<open>current\<close> gives: one marker per slide, in the order of the
  slides, the marker at position \<open>k\<close> labelled from slide \<open>k\<close>, flagged active exactly
  when \<open>k = current\<close>, and with a click listener that calls \<open>goTo k\<close>. For a deck of
  \<open>N \<ge> 1\<close> slides (the deck the specification assumes) exactly one marker is therefore
  active, the one at \<open>current\<close>. The container is rebuilt, not patched:
  \<open>updateBreadcrumbs\<close> discards whatever the container held before; the trace of every
  reachable state ends with the clearing of the container, the appending of each of
  its present markers in order, and the two flag writes; and every \<open>goTo\<close> whose
  clamped target differs from \<open>current\<close> returns normally at that target and appends
  to the trace the two display writes, the clearing of the container, the appending of
  every marker of the new view, and the two flag writes.
\<close>

theorem breadcrumb_view:
  assumes "reachable d s"
  shows "breadcrumbs s = crumbs_of (slides d) (current s) \<and>
         length (breadcrumbs s) = length (slides d) \<and>
         (slides d \<noteq> [] \<longrightarrow> active_indices s = [nat (current s)]) \<and>
         (\<forall>k<length (slides d).
            (is_active (breadcrumbs s ! k) \<longleftrightarrow> int k = current s) \<and>
            click (breadcrumbs s ! k) = k \<and>
            crumb_click k s = goTo (int k) s \<and>
            label (breadcrumbs s ! k) = js_or (title (slides d ! k)) (fallback_label k)) \<and>
         (\<forall>s0. breadcrumbs (updateBreadcrumbs s0) = crumbs_of (slides s0) (current s0)) \<and>
         suffix (ClearCrumbs # map AppendCrumb (breadcrumbs s) @
                 [SetPrevDisabled (current s = 0),
                  SetNextDisabled (current s = int (length (slides d)) - 1)]) (writes s) \<and>
         (\<forall>i. clamp i (length (slides d)) \<noteq> current s \<longrightarrow>
            (\<exists>s'. goTo i s = Inr s' \<and> current s' = clamp i (length (slides d)) \<and>
               breadcrumbs s' = crumbs_of (slides d) (current s') \<and>
               writes s' = writes s @
                 [SetDisplay (nat (current s)) ''none'', SetDisplay (nat (current s')) ''''] @
                 ClearCrumbs # map AppendCrumb (breadcrumbs s') @
                 [SetPrevDisabled (current s' = 0),
                  SetNextDisabled (current s' = int (length (slides d)) - 1)]))"
proof -
  have b: "breadcrumbs s = crumbs_of (slides d) (current s)"
    using assms by (rule reachable_breadcrumbs_dom)
  have nth: "breadcrumbs s ! k = new_crumb (current s) (slides d ! k) k"
    if "k < length (slides d)" for k
    using that by (simp add: b crumbs_of_nth)
  have act: "active_indices s = [nat (current s)]" if ne: "slides d \<noteq> []"
    unfolding active_indices_def
  proof (rule filter_upt_single)
    show "nat (current s) < length (breadcrumbs s)"
      using reachable_range [OF assms ne] by (simp add: b)
  next
    fix k assume "k < length (breadcrumbs s)"
    then have "k < length (slides d)" by (simp add: b)
    then show "is_active (breadcrumbs s ! k) \<longleftrightarrow> k = nat (current s)"
      using reachable_range(1) [OF assms ne] by (auto simp: nth)
  qed
  have each: "(is_active (breadcrumbs s ! k) \<longleftrightarrow> int k = current s) \<and>
      click (breadcrumbs s ! k) = k \<and> crumb_click k s = goTo (int k) s \<and>
      label (breadcrumbs s ! k) = js_or (title (slides d ! k)) (fallback_label k)"
    if k: "k < length (slides d)" for k
  proof -
    have "k < length (breadcrumbs s)" using k by (simp add: b)
    then have "crumb_click k s = goTo (int (click (breadcrumbs s ! k))) s"
      by (simp add: crumb_click_def)
    then show ?thesis by (simp add: nth [OF k]) (simp add: new_crumb_def)
  qed
  have tr: "suffix (ClearCrumbs # map AppendCrumb (breadcrumbs s) @
                 [SetPrevDisabled (current s = 0),
                  SetNextDisabled (current s = int (length (slides d)) - 1)]) (writes s)"
    using reachable_render_trace [OF assms] by (simp add: reachable_length [OF assms])
  note step = goTo_rerenders [OF assms]
  have len: "length (breadcrumbs s) = length (slides d)" by (simp add: b)
  have ub: "\<forall>s0. breadcrumbs (updateBreadcrumbs s0) = crumbs_of (slides s0) (current s0)"
    by simp
  show ?thesis
    using b len act each ub tr step by (intro conjI allI impI) blast+
qed

text \<open>
  The three-slide page after load: three markers, the first one active. After
  \<open>goTo 2\<close> the container was cleared and its three markers appended anew, the third
  one active.
\<close>

theorem breadcrumb_view_witness:
  "reachable deck3 (init deck3) \<and> slides deck3 \<noteq> [] \<and>
   length (breadcrumbs (init deck3)) = 3 \<and> active_indices (init deck3) = [0] \<and>
   click (breadcrumbs (init deck3) ! 2) = 2 \<and>
   crumb_click 2 (init deck3) = goTo 2 (init deck3) \<and>
   clamp 2 (length (slides deck3)) \<noteq> current (init deck3) \<and>
   (\<exists>s'. goTo 2 (init deck3) = Inr s' \<and> reachable deck3 s' \<and> current s' = 2 \<and>
      active_indices s' = [2] \<and>
      breadcrumbs s' = crumbs_of (slides deck3) 2 \<and>
      writes s' = writes (init deck3) @
        [SetDisplay 0 ''none'', SetDisplay 2 '''', ClearCrumbs] @
        map AppendCrumb (crumbs_of (slides deck3) 2) @
        [SetPrevDisabled False, SetNextDisabled True])"
proof -
  have r: "reachable deck3 (init deck3)" by (rule at_load)
  have len: "length (slides deck3) = 3" by (simp add: deck3_def)
  have n: "slides deck3 \<noteq> []" by (simp add: deck3_def)
  note v = breadcrumb_view [OF r]
  from v have a: "length (breadcrumbs (init deck3)) = length (slides deck3)" by blast
  from v n have b: "active_indices (init deck3) = [nat (current (init deck3))]" by blast
  from v have "\<forall>k<length (slides deck3).
      click (breadcrumbs (init deck3) ! k) = k \<and>
      crumb_click k (init deck3) = goTo (int k) (init deck3)" by blast
  then have c: "click (breadcrumbs (init deck3) ! 2) = 2 \<and>
      crumb_click 2 (init deck3) = goTo (int 2) (init deck3)"
    using len by simp
  have cl: "clamp 2 (length (slides deck3)) = 2" by (simp add: len clamp_def)
  then have ne: "clamp 2 (length (slides deck3)) \<noteq> current (init deck3)" by simp
  from v have "\<forall>i. clamp i (length (slides deck3)) \<noteq> current (init deck3) \<longrightarrow>
            (\<exists>s'. goTo i (init deck3) = Inr s' \<and> current s' = clamp i (length (slides deck3)) \<and>
               breadcrumbs s' = crumbs_of (slides deck3) (current s') \<and>
               writes s' = writes (init deck3) @
                 [SetDisplay (nat (current (init deck3))) ''none'',
                  SetDisplay (nat (current s')) ''''] @
                 ClearCrumbs # map AppendCrumb (breadcrumbs s') @
                 [SetPrevDisabled (current s' = 0),
                  SetNextDisabled (current s' = int (length (slides deck3)) - 1)])"
    by blast
  with ne obtain s' where s': "goTo 2 (init deck3) = Inr s'"
      "current s' = clamp 2 (length (slides deck3))"
      "breadcrumbs s' = crumbs_of (slides deck3) (current s')"
      "writes s' = writes (init deck3) @
                 [SetDisplay (nat (current (init deck3))) ''none'',
                  SetDisplay (nat (current s')) ''''] @
                 ClearCrumbs # map AppendCrumb (breadcrumbs s') @
                 [SetPrevDisabled (current s' = 0),
                  SetNextDisabled (current s' = int (length (slides deck3)) - 1)]"
    by blast
  from r s'(1) have r': "reachable deck3 s'" by (rule by_goTo)
  have act': "active_indices s' = [2]"
    using breadcrumb_view [OF r'] n s'(2) cl by simp
  have "goTo 2 (init deck3) = Inr s' \<and> reachable deck3 s' \<and> current s' = 2 \<and>
      active_indices s' = [2] \<and>
      breadcrumbs s' = crumbs_of (slides deck3) 2 \<and>
      writes s' = writes (init deck3) @
        [SetDisplay 0 ''none'', SetDisplay 2 '''', ClearCrumbs] @
        map AppendCrumb (crumbs_of (slides deck3) 2) @
        [SetPrevDisabled False, SetNextDisabled True]"
    using s' r' act' cl by (simp add: len)
  then have e: "\<exists>s'. goTo 2 (init deck3) = Inr s' \<and> reachable deck3 s' \<and> current s' = 2 \<and>
      active_indices s' = [2] \<and>
      breadcrumbs s' = crumbs_of (slides deck3) 2 \<and>
      writes s' = writes (init deck3) @
        [SetDisplay 0 ''none'', SetDisplay 2 '''', ClearCrumbs] @
        map AppendCrumb (crumbs_of (slides deck3) 2) @
        [SetPrevDisabled False, SetNextDisabled True]" ..
  from r n a b c ne e show ?thesis by (simp add: len)
qed

text \<open>
  Claim C7. In every state \<open>next\<close> is \<open>goTo (current + 1)\<close> and \<open>prev\<close> is
  \<open>goTo (current - 1)\<close>, with the same result, error or state, and nothing else.
\<close>

theorem next_prev_delegate:
  "next' s = goTo (current s + 1) s \<and> prev s = goTo (current s - 1) s"
  by (simp add: next'_def prev_def)

text \<open>
  Claim C8, with the word the source uses. For a slide at position \<open>k\<close> without a title, the label of the
  marker rendered for it is the Cyrillic word U+0421 U+043B U+0430 U+0439 U+0434
  followed by a space and the decimal numeral of \<open>k + 1\<close>; it is not the Latin
  word "Slide".
\<close>

theorem untitled_slide_label:
  assumes "k < length (slides s)" and "title (slides s ! k) = None"
  shows "label (breadcrumbs (updateBreadcrumbs s) ! k) =
           [1057, 1083, 1072, 1081, 1076, 32] @ decimal (k + 1)"
  using assms by (simp add: crumbs_of_nth new_crumb_def js_or_def fallback_label_def)

text \<open>The untitled second slide of the three-slide page.\<close>

theorem untitled_slide_label_witness:
  "(1::nat) < length (slides (init deck3)) \<and> title (slides (init deck3) ! 1) = None \<and>
   label (breadcrumbs (updateBreadcrumbs (init deck3)) ! 1) =
     [1057, 1083, 1072, 1081, 1076, 32, 50]"
proof -
  have k: "(1::nat) < length (slides (init deck3))" by (simp add: deck3_def)
  have t: "title (slides (init deck3) ! 1) = None" by (simp add: init_nth deck3_def)
  from untitled_slide_label [OF k t] k t show ?thesis by (simp add: decimal.simps)
qed

text \<open>
  As stated, with the Latin word "Slide", C8 fails: the label of that second slide
  differs from it in its first five code units.
\<close>

theorem untitled_label_is_cyrillic:
  "title (slides deck3 ! 1) = None \<and>
   label (breadcrumbs (init deck3) ! 1) = [1057, 1083, 1072, 1081, 1076, 32, 50] \<and>
   ascii ''Slide '' @ decimal (1 + 1) = [83, 108, 105, 100, 101, 32, 50] \<and>
   label (breadcrumbs (init deck3) ! 1) \<noteq> ascii ''Slide '' @ decimal (1 + 1)"
  by (simp add: deck3_def init_breadcrumbs crumbs_of_nth init_nth new_crumb_def js_or_def
      fallback_label_def decimal.simps ascii_def)

text \<open>
  Claim C9. On a page without slides, in every reachable state and for every integer
  \<open>i\<close>, the clamped target of \<open>goTo i\<close> is 0, which is \<open>current\<close>, so the call returns
  normally at the guard of line 31 and the state, trace included, is unchanged.
\<close>

theorem empty_deck_goTo:
  assumes "reachable d s" and "slides d = []"
  shows "clamp i (length (slides s)) = 0 \<and> current s = 0 \<and> goTo i s = Inr s"
proof -
  have "shape_ok d s" using assms(1) by (rule reachable_shape)
  with assms(2) have e: "length (slides s) = 0" and c: "current s = 0"
    by (auto simp: shape_ok_def clamp_def)
  have "clamp i (length (slides s)) = 0" using e by (simp add: clamp_empty)
  with c show ?thesis by (simp add: goTo_same)
qed

text \<open>The empty page after load, asked for slide 3 and for slide -1.\<close>

theorem empty_deck_goTo_witness:
  "reachable deck0 (init deck0) \<and> slides deck0 = [] \<and>
   goTo 3 (init deck0) = Inr (init deck0) \<and> goTo (- 1) (init deck0) = Inr (init deck0)"
proof -
  have r: "reachable deck0 (init deck0)" by (rule at_load)
  have n: "slides deck0 = []" by (simp add: deck0_def)
  show ?thesis
    using r n empty_deck_goTo [OF r n, of 3] empty_deck_goTo [OF r n, of "- 1"]
    by simp
qed

text \<open>
  Claim C10. A \<open>goTo\<close> whose clamped target equals \<open>current\<close> writes nothing to the
  page: the trace of writes, the breadcrumb container and both button flags are as
  before. A render would have left its mark, since \<open>updateBreadcrumbs\<close> and
  \<open>updateNav\<close> each extend the trace.
\<close>

theorem noop_writes_nothing:
  assumes "clamp i (length (slides s)) = current s"
  shows "\<exists>s'. goTo i s = Inr s' \<and> writes s' = writes s \<and>
              breadcrumbs s' = breadcrumbs s \<and>
              prevBtn_disabled s' = prevBtn_disabled s \<and>
              nextBtn_disabled s' = nextBtn_disabled s \<and>
              writes (updateBreadcrumbs s') \<noteq> writes s' \<and>
              writes (updateNav s') \<noteq> writes s'"
proof -
  have "goTo i s = Inr s" using assms by (rule goTo_same)
  moreover have "writes (updateBreadcrumbs s) \<noteq> writes s" by (simp add: ub_writes)
  moreover have "writes (updateNav s) \<noteq> writes s" by (simp add: un_writes)
  ultimately show ?thesis by simp
qed

text \<open>\<open>goTo 9\<close> at the last of two slides, with an empty trace and container.\<close>

theorem noop_writes_nothing_witness:
  "clamp 9 (length (slides at_last)) = current at_last \<and>
   (\<exists>s'. goTo 9 at_last = Inr s' \<and> writes s' = [] \<and> breadcrumbs s' = [])"
proof -
  have h: "clamp 9 (length (slides at_last)) = current at_last"
    by (simp add: at_last_def clamp_def)
  have w: "writes at_last = []" "breadcrumbs at_last = []"
    by (simp_all add: at_last_def)
  from noop_writes_nothing [OF h] w h show ?thesis by auto
qed

end
